theory Spec2Isabelle
  imports Main
begin

section \<open>Python values and helpers used by \<^verbatim>\<open>tp_blockchain.py\<close>\<close>

text \<open>
  The program hashes with \<^verbatim>\<open>hashlib.sha256(s.encode()).hexdigest()\<close>. The library is not
  part of the repository, so every function that hashes takes the digest function
  \<open>H :: string \<Rightarrow> string\<close> as its first argument; each theorem below holds for every
  \<open>H\<close>, SHA-256 included. Strings are byte lists (the UTF-8 form that \<^verbatim>\<open>encode()\<close>
  produces), so \<open>@\<close> is Python's \<^verbatim>\<open>+\<close> on \<^verbatim>\<open>str\<close>.
\<close>

datatype error = IndexError | ValueError

definition digit_char :: "nat \<Rightarrow> char" where
  "digit_char n = ''0123456789'' ! n"

function str_nat :: "nat \<Rightarrow> string" where
  "str_nat n = (if n < 10 then [digit_char n] else str_nat (n div 10) @ [digit_char (n mod 10)])"
  by pat_completeness auto
termination
  by (relation "measure (\<lambda>n. n)") auto

declare str_nat.simps [simp del]

text \<open>\<^verbatim>\<open>str(i)\<close> for a Python \<^verbatim>\<open>int\<close>, as an f-string renders it.\<close>

definition str_int :: "int \<Rightarrow> string" where
  "str_int i = (if i < 0 then ''-'' @ str_nat (nat (- i)) else str_nat (nat i))"

text \<open>
  A block's timestamp is the integer the caller passed, or, when the caller passed none,
  the float that \<^verbatim>\<open>time.time()\<close> returned. Only its \<^verbatim>\<open>str()\<close> form is ever used, so a
  clock reading is kept as that rendering.
\<close>

datatype py_time = Int_time int | Clock_time string

fun str_time :: "py_time \<Rightarrow> string" where
  "str_time (Int_time i) = str_int i"
| "str_time (Clock_time s) = s"

text \<open>\<^verbatim>\<open>s.startswith(p)\<close>.\<close>

definition startswith :: "string \<Rightarrow> string \<Rightarrow> bool" where
  "startswith s p = (take (length p) s = p)"

text \<open>\<^verbatim>\<open>s * n\<close> on a \<^verbatim>\<open>str\<close>: the empty string when \<open>n \<le> 0\<close>.\<close>

definition str_mul :: "string \<Rightarrow> int \<Rightarrow> string" where
  "str_mul s n = concat (replicate (nat n) s)"

section \<open>Block\<close>

record block =
  timestamp :: py_time
  data :: string
  previous_hash :: string
  nonce :: int
  hash :: string

definition calculate_hash :: "(string \<Rightarrow> string) \<Rightarrow> block \<Rightarrow> string" where
  "calculate_hash H b =
     H (str_time (timestamp b) @ data b @ previous_hash b @ str_int (nonce b))"

text \<open>
  \<^verbatim>\<open>Block.__init__\<close>: the four fields are set and the digest is computed from them. The
  caller supplies the timestamp (the clock reading when the Python argument is \<^verbatim>\<open>None\<close>).
\<close>

definition Block_init :: "(string \<Rightarrow> string) \<Rightarrow> string \<Rightarrow> string \<Rightarrow> py_time \<Rightarrow> block" where
  "Block_init H d prev ts =
     (let b = \<lparr>timestamp = ts, data = d, previous_hash = prev, nonce = 0, hash = []\<rparr>
      in b\<lparr>hash := calculate_hash H b\<rparr>)"

text \<open>
  The \<^verbatim>\<open>while\<close> loop of \<^verbatim>\<open>mine_block\<close>. It has no bound, so the model is a partial
  function: \<open>None\<close> is the loop that never ends.
\<close>

partial_function (option) mine_loop :: "(string \<Rightarrow> string) \<Rightarrow> string \<Rightarrow> block \<Rightarrow> block option" where
  "mine_loop H target b =
     (if \<not> startswith (hash b) target
      then (let b1 = b\<lparr>nonce := nonce b + 1\<rparr>
            in mine_loop H target (b1\<lparr>hash := calculate_hash H b1\<rparr>))
      else Some b)"

definition mine_block :: "(string \<Rightarrow> string) \<Rightarrow> int \<Rightarrow> block \<Rightarrow> block option" where
  "mine_block H difficulty b = mine_loop H (str_mul ''0'' difficulty) b"

definition update_data :: "(string \<Rightarrow> string) \<Rightarrow> block \<Rightarrow> string \<Rightarrow> block" where
  "update_data H b new_data =
     (let b1 = b\<lparr>data := new_data\<rparr>;
          b2 = b1\<lparr>nonce := 0\<rparr>
      in b2\<lparr>hash := calculate_hash H b2\<rparr>)"

text \<open>
  Blocks are objects: a chain holds references to them, and the same block may be held by
  several chains (the tests copy one chain's list into others). The store maps a reference
  to the block it denotes; calling \<^verbatim>\<open>update_data\<close> through a reference writes that one
  object.
\<close>

type_synonym ref = nat
type_synonym store = "ref \<rightharpoonup> block"

definition update_data_ref :: "(string \<Rightarrow> string) \<Rightarrow> store \<Rightarrow> ref \<Rightarrow> string \<Rightarrow> store" where
  "update_data_ref H s r new_data =
     (case s r of None \<Rightarrow> s | Some b \<Rightarrow> s(r \<mapsto> update_data H b new_data))"

section \<open>Blockchain\<close>

record blockchain =
  difficulty :: int
  chain :: "block list"

definition create_genesis_block :: "(string \<Rightarrow> string) \<Rightarrow> int \<Rightarrow> py_time \<Rightarrow> block option" where
  "create_genesis_block H dif ts = mine_block H dif (Block_init H ''Genesis Block'' ''0'' ts)"

definition Blockchain_init :: "(string \<Rightarrow> string) \<Rightarrow> int \<Rightarrow> py_time \<Rightarrow> blockchain option" where
  "Blockchain_init H dif genesis_timestamp =
     (case create_genesis_block H dif genesis_timestamp of
        None \<Rightarrow> None
      | Some genesis \<Rightarrow> Some \<lparr>difficulty = dif, chain = [genesis]\<rparr>)"

text \<open>
  \<^verbatim>\<open>add_block\<close>: \<^verbatim>\<open>self.chain[-1]\<close> raises \<^verbatim>\<open>IndexError\<close> on an empty chain; mining may
  not return (\<open>None\<close>).
\<close>

definition add_block :: "(string \<Rightarrow> string) \<Rightarrow> blockchain \<Rightarrow> string \<Rightarrow> py_time \<Rightarrow> (error + blockchain) option" where
  "add_block H bc d ts =
     (if chain bc = [] then Some (Inl IndexError)
      else (let last_block = last (chain bc) in
            case mine_block H (difficulty bc) (Block_init H d (hash last_block) ts) of
              None \<Rightarrow> None
            | Some new_block \<Rightarrow> Some (Inr (bc\<lparr>chain := chain bc @ [new_block]\<rparr>))))"

text \<open>A sequence of \<^verbatim>\<open>add_block\<close> calls, each with its payload and timestamp.\<close>

fun add_blocks :: "(string \<Rightarrow> string) \<Rightarrow> blockchain \<Rightarrow> (string \<times> py_time) list \<Rightarrow> (error + blockchain) option" where
  "add_blocks H bc [] = Some (Inr bc)"
| "add_blocks H bc ((d, ts) # rest) =
     (case add_block H bc d ts of
        Some (Inr bc') \<Rightarrow> add_blocks H bc' rest
      | r \<Rightarrow> r)"

text \<open>
  \<^verbatim>\<open>is_chain_valid\<close>: the \<^verbatim>\<open>for i in range(1, len(self.chain))\<close> loop with its three
  early returns, as a scan of the index list.
\<close>

fun valid_scan :: "(string \<Rightarrow> string) \<Rightarrow> blockchain \<Rightarrow> nat list \<Rightarrow> bool \<times> nat option" where
  "valid_scan H bc [] = (True, None)"
| "valid_scan H bc (i # rest) =
     (let current = chain bc ! i;
          prev = chain bc ! (i - 1)
      in if hash current \<noteq> calculate_hash H current then (False, Some i)
         else if previous_hash current \<noteq> hash prev then (False, Some i)
         else if \<not> startswith (hash current) (str_mul ''0'' (difficulty bc)) then (False, Some i)
         else valid_scan H bc rest)"

definition is_chain_valid :: "(string \<Rightarrow> string) \<Rightarrow> blockchain \<Rightarrow> bool \<times> nat option" where
  "is_chain_valid H bc = valid_scan H bc [1..<length (chain bc)]"

text \<open>
  \<^verbatim>\<open>bc.chain[k].update_data(p)\<close>: the payload of block \<open>k\<close> is replaced in place; an index
  past the end raises \<^verbatim>\<open>IndexError\<close>.
\<close>

definition update_data_at :: "(string \<Rightarrow> string) \<Rightarrow> blockchain \<Rightarrow> nat \<Rightarrow> string \<Rightarrow> error + blockchain" where
  "update_data_at H bc k p =
     (if k < length (chain bc)
      then Inr (bc\<lparr>chain := (chain bc)[k := update_data H (chain bc ! k) p]\<rparr>)
      else Inl IndexError)"

text \<open>The three checks of one iteration of \<^verbatim>\<open>is_chain_valid\<close>, as one predicate.\<close>

definition block_ok :: "(string \<Rightarrow> string) \<Rightarrow> blockchain \<Rightarrow> nat \<Rightarrow> bool" where
  "block_ok H bc i =
     (hash (chain bc ! i) = calculate_hash H (chain bc ! i)
      \<and> previous_hash (chain bc ! i) = hash (chain bc ! (i - 1))
      \<and> startswith (hash (chain bc ! i)) (str_mul ''0'' (difficulty bc)))"

text \<open>
  What the constructor establishes and \<^verbatim>\<open>add_block\<close> keeps: the difficulty, a genesis
  block with previous hash \<open>0\<close>, every later block linked to its predecessor, and every
  stored digest current and meeting the target.
\<close>

definition chain_inv :: "(string \<Rightarrow> string) \<Rightarrow> int \<Rightarrow> blockchain \<Rightarrow> bool" where
  "chain_inv H D bc =
     (difficulty bc = D \<and> chain bc \<noteq> []
      \<and> previous_hash (chain bc ! 0) = ''0''
      \<and> (\<forall>i. 1 \<le> i \<and> i < length (chain bc) \<longrightarrow>
             previous_hash (chain bc ! i) = hash (chain bc ! (i - 1)))
      \<and> (\<forall>b \<in> set (chain bc). hash b = calculate_hash H b \<and> startswith (hash b) (str_mul ''0'' D)))"

section \<open>MerkleTree\<close>

record merkle_tree =
  leaves :: "string list"
  tree :: "string list list"

text \<open>
  The inner \<^verbatim>\<open>for i in range(0, len(current_level), 2)\<close> loop: adjacent entries are
  concatenated and hashed. The loop is only entered on a level of even length (the level
  was padded just before), so the last equation is reached on the empty rest only.
\<close>

fun next_level_of :: "(string \<Rightarrow> string) \<Rightarrow> string list \<Rightarrow> string list" where
  "next_level_of H (x # y # rest) = H (x @ y) # next_level_of H rest"
| "next_level_of H rest = []"

lemma length_next_level_of: "length (next_level_of H xs) = length xs div 2"
  by (induction H xs rule: next_level_of.induct) auto

text \<open>
  The \<^verbatim>\<open>while len(current_level) > 1\<close> loop of \<^verbatim>\<open>build_tree\<close>. In the source
  \<^verbatim>\<open>current_level\<close> is the very list object that was last appended to \<^verbatim>\<open>self.tree\<close>
  (\<^verbatim>\<open>self.tree = [current_level]\<close>, later \<^verbatim>\<open>current_level = next_level\<close> after
  \<^verbatim>\<open>self.tree.append(next_level)\<close>), so \<^verbatim>\<open>current_level.append(current_level[-1])\<close>
  also changes the last entry of \<^verbatim>\<open>self.tree\<close>. The model writes the padded level back
  to that position.
\<close>

function build_loop :: "(string \<Rightarrow> string) \<Rightarrow> string list list \<Rightarrow> string list \<Rightarrow> string list list" where
  "build_loop H tr current_level =
     (if length current_level > 1
      then (let padded = (if length current_level mod 2 \<noteq> 0
                          then current_level @ [last current_level]
                          else current_level);
                tr1 = tr[length tr - 1 := padded];
                next_level = next_level_of H padded
            in build_loop H (tr1 @ [next_level]) next_level)
      else tr)"
  by pat_completeness auto
termination
  by (relation "measure (\<lambda>(H, tr, current_level). length current_level)")
     (auto simp: length_next_level_of)

declare build_loop.simps [simp del]

definition build_tree :: "(string \<Rightarrow> string) \<Rightarrow> merkle_tree \<Rightarrow> merkle_tree" where
  "build_tree H mt = mt\<lparr>tree := build_loop H [leaves mt] (leaves mt)\<rparr>"

definition MerkleTree_init :: "(string \<Rightarrow> string) \<Rightarrow> string list \<Rightarrow> merkle_tree" where
  "MerkleTree_init H ls =
     (let mt = \<lparr>leaves = ls, tree = []\<rparr>
      in if ls \<noteq> [] then build_tree H mt else mt)"

text \<open>
  \<^verbatim>\<open>compute_merkle_root\<close>: \<^verbatim>\<open>self.tree[-1][0]\<close> raises \<^verbatim>\<open>IndexError\<close> when the last
  level is empty.
\<close>

definition compute_merkle_root :: "merkle_tree \<Rightarrow> error + string" where
  "compute_merkle_root mt =
     (if tree mt = [] then Inr ''''
      else (case last (tree mt) of [] \<Rightarrow> Inl IndexError | r # _ \<Rightarrow> Inr r))"

section \<open>Majority root\<close>

text \<open>
  The tests select the majority root with \<^verbatim>\<open>max(set(roots), key=roots.count)\<close>.
  \<^verbatim>\<open>max\<close> walks its argument once and keeps the first item whose key is strictly
  greater than every key before it; on an empty argument it raises \<^verbatim>\<open>ValueError\<close>.
\<close>

fun max_from :: "('a \<Rightarrow> nat) \<Rightarrow> 'a \<Rightarrow> 'a list \<Rightarrow> 'a" where
  "max_from key best [] = best"
| "max_from key best (x # xs) = max_from key (if key x > key best then x else best) xs"

fun py_max :: "('a \<Rightarrow> nat) \<Rightarrow> 'a list \<Rightarrow> error + 'a" where
  "py_max key [] = Inl ValueError"
| "py_max key (x # xs) = Inr (max_from key x xs)"

text \<open>
  \<^verbatim>\<open>max\<close> walks \<^verbatim>\<open>set(roots)\<close>, not \<^verbatim>\<open>roots\<close>. Python fixes no iteration order for a
  set of strings (it follows the strings' hash values, which change from one run of the
  interpreter to the next), so the order is an input of the model: any list \<open>order\<close>
  that holds each distinct root exactly once.
\<close>

definition set_iteration :: "'a list \<Rightarrow> 'a list \<Rightarrow> bool" where
  "set_iteration order xs = (distinct order \<and> set order = set xs)"

definition majority_root :: "string list \<Rightarrow> string list \<Rightarrow> error + string" where
  "majority_root order roots = py_max (count_list roots) order"

text \<open>
  The selection as the specification words it: the earliest entry of the replica list,
  in scan order, whose occurrence count is maximal.
\<close>

definition is_max_count :: "string list \<Rightarrow> string \<Rightarrow> bool" where
  "is_max_count roots r = list_all (\<lambda>r'. count_list roots r' \<le> count_list roots r) roots"

definition majority_root_spec :: "string list \<Rightarrow> error + string" where
  "majority_root_spec roots =
     (case filter (is_max_count roots) roots of [] \<Rightarrow> Inl ValueError | r # _ \<Rightarrow> Inr r)"

section \<open>A stand-in digest for the examples\<close>

text \<open>
  The examples below run the model on concrete blocks and need some digest function to
  run it with. \<open>sum_digest\<close> is a small one: two hex digits, the low and then the
  high nibble of the byte sum of its input. It stands for \<^verbatim>\<open>hashlib.sha256\<close> in the
  examples only; no theorem depends on it.
\<close>

definition hex_char :: "nat \<Rightarrow> char" where
  "hex_char n = ''0123456789abcdef'' ! n"

definition sum_digest :: "string \<Rightarrow> string" where
  "sum_digest s =
     (let n = sum_list (map of_char s) mod 256 in [hex_char (n mod 16), hex_char (n div 16)])"

text \<open>
  Example blocks: a genesis block as the constructor leaves it, the same block after
  mining at difficulty 1 (six increments of the nonce), and the mined block after its
  payload attribute was assigned directly (\<^verbatim>\<open>b.data = ...\<close>, as the tests do), which
  leaves the stored digest stale.
\<close>

definition example_fresh :: block where
  "example_fresh = Block_init sum_digest ''Genesis Block'' ''0'' (Int_time 1000)"

definition example_mined :: block where
  "example_mined =
     \<lparr>timestamp = Int_time 1000, data = ''Genesis Block'', previous_hash = ''0'',
      nonce = 6, hash = ''00''\<rparr>"

definition example_stale :: block where
  "example_stale = example_mined\<lparr>data := ''evil''\<rparr>"

text \<open>
  Example chains: the chain that \<^verbatim>\<open>Blockchain(1, 1000)\<close> and two \<^verbatim>\<open>add_block\<close> calls
  build with \<open>sum_digest\<close>, and the chain that \<^verbatim>\<open>Blockchain(0, 1000)\<close> and one
  \<^verbatim>\<open>add_block\<close> call build (at difficulty 0 no nonce is ever incremented).
\<close>

definition example_chain :: blockchain where
  "example_chain =
     \<lparr>difficulty = 1,
      chain = [example_mined,
        \<lparr>timestamp = Int_time 1001, data = ''Transaction 0'', previous_hash = ''00'',
         nonce = 8, hash = ''03''\<rparr>,
        \<lparr>timestamp = Int_time 1002, data = ''Transaction 1'', previous_hash = ''03'',
         nonce = 3, hash = ''03''\<rparr>]\<rparr>"

definition example_chain0 :: blockchain where
  "example_chain0 =
     \<lparr>difficulty = 0,
      chain = [
        \<lparr>timestamp = Int_time 1000, data = ''Genesis Block'', previous_hash = ''0'',
         nonce = 0, hash = ''af''\<rparr>,
        \<lparr>timestamp = Int_time 1001, data = ''Transaction 0'', previous_hash = ''af'',
         nonce = 0, hash = ''f8''\<rparr>]\<rparr>"

section \<open>Evaluation of the helpers on concrete values\<close>

lemma str_nat_digit: "n < 10 \<Longrightarrow> str_nat n = [digit_char n]"
  by (subst str_nat.simps) simp

lemma str_nat_more: "10 \<le> n \<Longrightarrow> str_nat n = str_nat (n div 10) @ [digit_char (n mod 10)]"
  by (subst str_nat.simps) simp

lemma str_int_0: "str_int 0 = ''0''"
  by (simp add: str_int_def str_nat_digit digit_char_def)

lemmas eval_str = str_int_def str_nat_digit str_nat_more digit_char_def

lemmas eval_digest = sum_digest_def hex_char_def calculate_hash_def Block_init_def
  startswith_def str_mul_def eval_str

section \<open>Mining\<close>

lemma str_mul_zero: "str_mul ''0'' n = replicate (nat n) (CHR ''0'')"
  by (induction "nat n" arbitrary: n) (auto simp: str_mul_def replicate_append_same)

lemma startswith_empty: "startswith s []"
  by (simp add: startswith_def)

lemma startswith_replicate_mono:
  assumes "startswith s (replicate n c)" and "m \<le> n"
  shows "startswith s (replicate m c)"
proof -
  from assms(1) have "take n s = replicate n c"
    by (simp add: startswith_def)
  then have "take m (take n s) = take m (replicate n c)"
    by simp
  with assms(2) show ?thesis
    by (simp add: startswith_def min_absorb1)
qed

lemma startswith_target_mono:
  "startswith s (str_mul ''0'' D) \<Longrightarrow> D' \<le> D \<Longrightarrow> startswith s (str_mul ''0'' D')"
  unfolding str_mul_zero by (erule startswith_replicate_mono) simp

lemma mine_loop_done: "startswith (hash b) target \<Longrightarrow> mine_loop H target b = Some b"
  by (subst mine_loop.simps) simp

lemma mine_loop_step:
  "\<not> startswith (hash b) target \<Longrightarrow>
   mine_loop H target b =
     mine_loop H target (b\<lparr>nonce := nonce b + 1, hash := calculate_hash H (b\<lparr>nonce := nonce b + 1\<rparr>)\<rparr>)"
  by (subst mine_loop.simps) (simp add: Let_def)

lemma mine_loop_post:
  assumes "mine_loop H target b = Some b'"
  shows "startswith (hash b') target \<and> timestamp b' = timestamp b \<and> data b' = data b
         \<and> previous_hash b' = previous_hash b
         \<and> (hash b = calculate_hash H b \<or> \<not> startswith (hash b) target
              \<longrightarrow> hash b' = calculate_hash H b')"
proof -
  let ?P = "\<lambda>(H :: string \<Rightarrow> string) target b b'.
     startswith (hash b') target \<and> timestamp b' = timestamp b \<and> data b' = data b
     \<and> previous_hash b' = previous_hash b
     \<and> (hash b = calculate_hash H b \<or> \<not> startswith (hash b) target
          \<longrightarrow> hash b' = calculate_hash H b')"
  have "?P H target b b'"
  proof (rule mine_loop.raw_induct [where P = ?P, OF _ assms])
    fix f and H :: "string \<Rightarrow> string" and target b y
    assume IH: "\<And>H target b y. f H target b = Some y \<Longrightarrow> ?P H target b y"
      and eq: "(if \<not> startswith (hash b) target
                then let b1 = b\<lparr>nonce := nonce b + 1\<rparr>
                     in f H target (b1\<lparr>hash := calculate_hash H b1\<rparr>)
                else Some b) = Some y"
    show "?P H target b y"
    proof (cases "startswith (hash b) target")
      case True
      with eq show ?thesis by simp
    next
      case False
      let ?b1 = "b\<lparr>nonce := nonce b + 1\<rparr>"
      let ?b2 = "?b1\<lparr>hash := calculate_hash H ?b1\<rparr>"
      from False eq have run: "f H target ?b2 = Some y"
        by (simp add: Let_def)
      have fresh: "hash ?b2 = calculate_hash H ?b2"
        by (simp add: calculate_hash_def)
      have post: "?P H target ?b2 y"
        by (rule IH [OF run])
      from post fresh have "hash y = calculate_hash H y"
        by blast
      moreover from post have "startswith (hash y) target" "timestamp y = timestamp b"
        "data y = data b" "previous_hash y = previous_hash b"
        by simp_all
      ultimately show ?thesis
        by blast
    qed
  qed
  then show ?thesis .
qed

lemma mine_example_fresh: "mine_block sum_digest 1 example_fresh = Some example_mined"
  by (simp add: example_fresh_def example_mined_def mine_block_def mine_loop_done
      mine_loop_step eval_digest)

section \<open>Claims about blocks\<close>

text \<open>
  C10. A block whose stored digest already starts with \<open>D\<close> characters \<open>0\<close> is
  returned by \<^verbatim>\<open>mine_block(D)\<close> at once and unchanged, nonce and digest included.
  Hence mining at \<open>D\<close> and then again at any \<open>D' \<le> D\<close> (the same difficulty
  included) gives what mining once at \<open>D\<close> gives; when the first mining does not
  return, neither side does.
\<close>

theorem mine_block_already_mined:
  "(startswith (hash b) (replicate (nat D) (CHR ''0'')) \<longrightarrow> mine_block H D b = Some b)
   \<and> (D' \<le> D \<longrightarrow>
        (case mine_block H D b of None \<Rightarrow> None | Some b' \<Rightarrow> mine_block H D' b')
          = mine_block H D b)"
proof (intro conjI impI)
  assume "startswith (hash b) (replicate (nat D) (CHR ''0''))"
  then show "mine_block H D b = Some b"
    by (simp add: mine_block_def str_mul_zero mine_loop_done)
next
  assume le: "D' \<le> D"
  show "(case mine_block H D b of None \<Rightarrow> None | Some b' \<Rightarrow> mine_block H D' b')
          = mine_block H D b"
  proof (cases "mine_block H D b")
    case None
    then show ?thesis by simp
  next
    case (Some b')
    then have "startswith (hash b') (str_mul ''0'' D)"
      using mine_loop_post [of H "str_mul ''0'' D" b b'] by (simp add: mine_block_def)
    from this le have "startswith (hash b') (str_mul ''0'' D')"
      by (rule startswith_target_mono)
    then have "mine_block H D' b' = Some b'"
      by (simp add: mine_block_def mine_loop_done)
    with Some show ?thesis by simp
  qed
qed

theorem mine_block_already_mined_witness:
  "startswith (hash example_mined) (replicate (nat 1) (CHR ''0''))
   \<and> mine_block sum_digest 1 example_mined = Some example_mined
   \<and> (0 :: int) \<le> 1
   \<and> mine_block sum_digest 1 example_fresh = Some example_mined
   \<and> (case mine_block sum_digest 1 example_fresh of
         None \<Rightarrow> None | Some b' \<Rightarrow> mine_block sum_digest 0 b') = Some example_mined"
proof -
  have zeros: "startswith (hash example_mined) (replicate (nat 1) (CHR ''0''))"
    by (simp add: example_mined_def startswith_def)
  with mine_block_already_mined [where b = example_mined and D = 1 and H = sum_digest]
  have again: "mine_block sum_digest 1 example_mined = Some example_mined"
    by blast
  from mine_block_already_mined [where b = example_fresh and D = 1 and H = sum_digest and D' = 0]
  have twice: "(case mine_block sum_digest 1 example_fresh of
         None \<Rightarrow> None | Some b' \<Rightarrow> mine_block sum_digest 0 b') = Some example_mined"
    by (simp add: mine_example_fresh)
  from zeros again twice show ?thesis
    by (simp add: mine_example_fresh)
qed

text \<open>
  C7, as the code has it. When \<^verbatim>\<open>mine_block(D)\<close> returns, the stored digest starts with
  \<open>D\<close> characters \<open>0\<close>, and timestamp, payload and previous hash are what they were.
  The stored digest equals the recomputation from the block's fields provided it did so
  on entry or the loop ran at least once; \<^verbatim>\<open>mine_block\<close> never recomputes the digest of a
  block that already meets the target.
\<close>

theorem mine_block_post:
  assumes "mine_block H D b = Some b'"
  shows "startswith (hash b') (replicate (nat D) (CHR ''0''))
         \<and> timestamp b' = timestamp b \<and> data b' = data b
         \<and> previous_hash b' = previous_hash b
         \<and> (hash b = calculate_hash H b \<or> \<not> startswith (hash b) (replicate (nat D) (CHR ''0''))
              \<longrightarrow> hash b' = calculate_hash H b')"
  using mine_loop_post [of H "str_mul ''0'' D" b b'] assms
  unfolding mine_block_def str_mul_zero by blast

theorem mine_block_post_witness:
  "mine_block sum_digest 1 example_fresh = Some example_mined
   \<and> hash example_fresh = calculate_hash sum_digest example_fresh
   \<and> startswith (hash example_mined) (replicate (nat 1) (CHR ''0''))
   \<and> timestamp example_mined = timestamp example_fresh
   \<and> data example_mined = data example_fresh
   \<and> previous_hash example_mined = previous_hash example_fresh
   \<and> nonce example_mined = 6
   \<and> hash example_mined = calculate_hash sum_digest example_mined"
proof -
  have fresh: "hash example_fresh = calculate_hash sum_digest example_fresh"
    by (simp add: example_fresh_def Block_init_def calculate_hash_def)
  note post = mine_block_post [OF mine_example_fresh]
  from post fresh have digest: "hash example_mined = calculate_hash sum_digest example_mined"
    by blast
  have count: "nonce example_mined = 6"
    by (simp add: example_mined_def)
  from mine_example_fresh fresh post digest count show ?thesis
    by blast
qed

text \<open>
  C7 as stated fails on a block whose stored digest is stale: the mined example block
  with its payload overwritten still starts with \<open>0\<close>, so \<^verbatim>\<open>mine_block(1)\<close> returns
  it untouched, and its digest is not the recomputation from its fields.
\<close>

theorem mine_block_stale_counterexample:
  "mine_block sum_digest 1 example_stale = Some example_stale
   \<and> hash example_stale \<noteq> calculate_hash sum_digest example_stale"
  by (simp add: example_stale_def example_mined_def mine_block_def mine_loop_done eval_digest)

text \<open>
  C8. \<^verbatim>\<open>update_data(p)\<close> sets the payload to \<open>p\<close>, the nonce to 0 and the digest to the
  recomputation from timestamp, \<open>p\<close>, previous hash and nonce 0 (one call of the digest
  function, no mining); timestamp and previous hash stay. In a store of block objects
  only the object the call was made on changes; in a chain only position \<open>k\<close> changes,
  and the difficulty and the length stay.
\<close>

theorem update_data_effect:
  "data (update_data H b p) = p
   \<and> nonce (update_data H b p) = 0
   \<and> hash (update_data H b p) = H (str_time (timestamp b) @ p @ previous_hash b @ ''0'')
   \<and> timestamp (update_data H b p) = timestamp b
   \<and> previous_hash (update_data H b p) = previous_hash b
   \<and> (s r = Some b \<longrightarrow> update_data_ref H s r p r = Some (update_data H b p))
   \<and> (\<forall>r'. r' \<noteq> r \<longrightarrow> update_data_ref H s r p r' = s r')
   \<and> (k < length (chain bc) \<longrightarrow>
        (\<exists>bc'. update_data_at H bc k p = Inr bc'
           \<and> difficulty bc' = difficulty bc
           \<and> length (chain bc') = length (chain bc)
           \<and> chain bc' ! k = update_data H (chain bc ! k) p
           \<and> (\<forall>j. j \<noteq> k \<longrightarrow> chain bc' ! j = chain bc ! j)))"
proof -
  have blk: "data (update_data H b p) = p \<and> nonce (update_data H b p) = 0
      \<and> hash (update_data H b p) = H (str_time (timestamp b) @ p @ previous_hash b @ ''0'')
      \<and> timestamp (update_data H b p) = timestamp b
      \<and> previous_hash (update_data H b p) = previous_hash b"
    by (simp add: update_data_def calculate_hash_def str_int_0 Let_def)
  have st: "(s r = Some b \<longrightarrow> update_data_ref H s r p r = Some (update_data H b p))
      \<and> (\<forall>r'. r' \<noteq> r \<longrightarrow> update_data_ref H s r p r' = s r')"
    by (simp add: update_data_ref_def split: option.split)
  have ch: "k < length (chain bc) \<longrightarrow>
        (\<exists>bc'. update_data_at H bc k p = Inr bc'
           \<and> difficulty bc' = difficulty bc
           \<and> length (chain bc') = length (chain bc)
           \<and> chain bc' ! k = update_data H (chain bc ! k) p
           \<and> (\<forall>j. j \<noteq> k \<longrightarrow> chain bc' ! j = chain bc ! j))"
    by (simp add: update_data_at_def)
  from blk st ch show ?thesis by blast
qed

theorem update_data_effect_witness:
  "update_data sum_digest example_mined ''x'' =
     \<lparr>timestamp = Int_time 1000, data = ''x'', previous_hash = ''0'', nonce = 0, hash = ''99''\<rparr>
   \<and> ([1 \<mapsto> example_mined, 2 \<mapsto> example_fresh] :: store) 1 = Some example_mined
   \<and> update_data_ref sum_digest [1 \<mapsto> example_mined, 2 \<mapsto> example_fresh] 1 ''x'' 1
        = Some (update_data sum_digest example_mined ''x'')
   \<and> (2 :: nat) \<noteq> 1
   \<and> update_data_ref sum_digest [1 \<mapsto> example_mined, 2 \<mapsto> example_fresh] 1 ''x'' 2
        = Some example_fresh
   \<and> (1 :: nat) < length (chain \<lparr>difficulty = 1, chain = [example_fresh, example_mined]\<rparr>)
   \<and> update_data_at sum_digest \<lparr>difficulty = 1, chain = [example_fresh, example_mined]\<rparr> 1 ''x''
        = Inr \<lparr>difficulty = 1,
               chain = [example_fresh, update_data sum_digest example_mined ''x'']\<rparr>"
proof -
  let ?s = "[1 \<mapsto> example_mined, 2 \<mapsto> example_fresh] :: store"
  let ?bc = "\<lparr>difficulty = 1, chain = [example_fresh, example_mined]\<rparr>"
  note eff = update_data_effect [where H = sum_digest and b = example_mined and p = "''x''"
      and s = ?s and r = 1 and k = 1 and bc = ?bc]
  have val: "update_data sum_digest example_mined ''x'' =
     \<lparr>timestamp = Int_time 1000, data = ''x'', previous_hash = ''0'', nonce = 0, hash = ''99''\<rparr>"
    by (simp add: update_data_def example_mined_def eval_digest)
  from eff have own: "update_data_ref sum_digest ?s 1 ''x'' 1
        = Some (update_data sum_digest example_mined ''x'')"
    by simp
  from eff have other: "update_data_ref sum_digest ?s 1 ''x'' 2 = Some example_fresh"
    by simp
  from eff have at: "update_data_at sum_digest ?bc 1 ''x''
        = Inr \<lparr>difficulty = 1,
               chain = [example_fresh, update_data sum_digest example_mined ''x'']\<rparr>"
    by (simp add: update_data_at_def)
  from val own other at show ?thesis
    by simp
qed

section \<open>Claims about the Merkle tree\<close>

lemma build_loop_stop: "length cur \<le> 1 \<Longrightarrow> build_loop H tr cur = tr"
  by (subst build_loop.simps) simp

lemma build_loop_even:
  "1 < length cur \<Longrightarrow> even (length cur) \<Longrightarrow>
   build_loop H tr cur =
     build_loop H (tr[length tr - 1 := cur] @ [next_level_of H cur]) (next_level_of H cur)"
  by (subst build_loop.simps) (simp add: Let_def)

lemma build_loop_odd:
  "1 < length cur \<Longrightarrow> odd (length cur) \<Longrightarrow>
   build_loop H tr cur =
     build_loop H (tr[length tr - 1 := cur @ [last cur]] @ [next_level_of H (cur @ [last cur])])
       (next_level_of H (cur @ [last cur]))"
  by (subst build_loop.simps) (simp add: Let_def odd_iff_mod_2_eq_one)

lemmas eval_merkle = MerkleTree_init_def build_tree_def compute_merkle_root_def
  build_loop_stop build_loop_even build_loop_odd

lemma build_loop_pad:
  assumes "odd (length xs)" and "1 < length xs"
  shows "build_loop H tr xs = build_loop H tr (xs @ [last xs])"
proof -
  from assms(2) have "xs \<noteq> []"
    by (cases xs) simp_all
  with assms have "1 < length (xs @ [last xs])" and "even (length (xs @ [last xs]))"
    by simp_all
  then have "build_loop H tr (xs @ [last xs]) =
     build_loop H (tr[length tr - 1 := xs @ [last xs]] @ [next_level_of H (xs @ [last xs])])
       (next_level_of H (xs @ [last xs]))"
    by (rule build_loop_even)
  with build_loop_odd [OF assms(2) assms(1), of H tr] show ?thesis
    by simp
qed

lemma build_loop_first_overwritten:
  "1 < length xs \<Longrightarrow> build_loop H [ys] xs = build_loop H [zs] xs"
  by (subst (1 2) build_loop.simps) (simp add: Let_def)

lemma build_loop_keeps_earlier:
  "i < length tr - 1 \<Longrightarrow> build_loop H tr cur ! i = tr ! i"
proof (induction H tr cur arbitrary: i rule: build_loop.induct)
  case (1 H tr cur)
  show ?case
  proof (cases "1 < length cur")
    case False
    then show ?thesis by (simp add: build_loop_stop)
  next
    case True
    define padded where "padded = (if length cur mod 2 \<noteq> 0 then cur @ [last cur] else cur)"
    define tr1 where "tr1 = tr[length tr - 1 := padded]"
    define next_level where "next_level = next_level_of H padded"
    have unfold: "build_loop H tr cur = build_loop H (tr1 @ [next_level]) next_level"
      using True by (subst build_loop.simps) (simp add: Let_def padded_def tr1_def next_level_def)
    from "1.prems" have "i < length (tr1 @ [next_level]) - 1"
      by (simp add: tr1_def)
    with True have "build_loop H (tr1 @ [next_level]) next_level ! i = (tr1 @ [next_level]) ! i"
      by (intro "1.IH" [OF _ padded_def tr1_def next_level_def]) simp_all
    also from "1.prems" have "\<dots> = tr ! i"
      by (auto simp: nth_append tr1_def)
    finally show ?thesis
      by (simp add: unfold)
  qed
qed

lemma build_loop_level_padded:
  assumes "tr \<noteq> []" and "1 < length cur"
  shows "build_loop H tr cur ! (length tr - 1)
           = (if length cur mod 2 \<noteq> 0 then cur @ [last cur] else cur)"
proof -
  define padded where "padded = (if length cur mod 2 \<noteq> 0 then cur @ [last cur] else cur)"
  define tr1 where "tr1 = tr[length tr - 1 := padded]"
  define next_level where "next_level = next_level_of H padded"
  have unfold: "build_loop H tr cur = build_loop H (tr1 @ [next_level]) next_level"
    using assms(2) by (subst build_loop.simps) (simp add: Let_def padded_def tr1_def next_level_def)
  have "build_loop H (tr1 @ [next_level]) next_level ! (length tr - 1)
          = (tr1 @ [next_level]) ! (length tr - 1)"
    using assms(1) by (intro build_loop_keeps_earlier) (simp add: tr1_def)
  also have "\<dots> = padded"
    using assms(1) by (simp add: nth_append tr1_def)
  finally show ?thesis
    by (simp add: unfold padded_def)
qed

text \<open>
  C9. Building a tree from the empty list of leaves does not fail: \<^verbatim>\<open>build_tree\<close> is not
  called, no level is stored, and \<^verbatim>\<open>compute_merkle_root\<close> returns the empty string.
\<close>

theorem merkle_empty:
  "MerkleTree_init H [] = \<lparr>leaves = [], tree = []\<rparr>
   \<and> compute_merkle_root (MerkleTree_init H []) = Inr ''''"
  by (simp add: MerkleTree_init_def compute_merkle_root_def)

text \<open>
  C4. For four leaves the root is the digest of the two pair digests concatenated:
  \<open>H (H (h0 + h1) + H (h2 + h3))\<close>, with \<open>+\<close> plain concatenation.
\<close>

theorem merkle_root_four:
  "compute_merkle_root (MerkleTree_init H [h0, h1, h2, h3]) = Inr (H (H (h0 @ h1) @ H (h2 @ h3)))"
  by (simp add: eval_merkle)

text \<open>
  C5. The root of three leaves is the root of the four leaves obtained by repeating the
  last one. More generally the loop treats every level of odd length greater than 1
  exactly as the same level with its last entry repeated: it continues identically, so
  the stored levels and the root are the same.
\<close>

theorem merkle_odd_duplicates_last:
  "compute_merkle_root (MerkleTree_init H [h0, h1, h2])
     = compute_merkle_root (MerkleTree_init H [h0, h1, h2, h2])
   \<and> (odd (length xs) \<and> 1 < length xs \<longrightarrow>
        build_loop H tr xs = build_loop H tr (xs @ [last xs])
        \<and> tree (MerkleTree_init H xs) = tree (MerkleTree_init H (xs @ [last xs]))
        \<and> compute_merkle_root (MerkleTree_init H xs)
            = compute_merkle_root (MerkleTree_init H (xs @ [last xs])))"
proof (intro conjI impI)
  show "compute_merkle_root (MerkleTree_init H [h0, h1, h2])
     = compute_merkle_root (MerkleTree_init H [h0, h1, h2, h2])"
    by (simp add: eval_merkle)
next
  assume odd: "odd (length xs) \<and> 1 < length xs"
  then show pad: "build_loop H tr xs = build_loop H tr (xs @ [last xs])"
    by (simp add: build_loop_pad)
  from odd have ne: "xs \<noteq> []"
    by (cases xs) simp_all
  from odd have "build_loop H [xs] xs = build_loop H [xs] (xs @ [last xs])"
    by (simp add: build_loop_pad)
  also from ne have "\<dots> = build_loop H [xs @ [last xs]] (xs @ [last xs])"
    by (intro build_loop_first_overwritten) simp
  finally show trees: "tree (MerkleTree_init H xs) = tree (MerkleTree_init H (xs @ [last xs]))"
    using ne by (simp add: MerkleTree_init_def build_tree_def)
  then show "compute_merkle_root (MerkleTree_init H xs)
            = compute_merkle_root (MerkleTree_init H (xs @ [last xs]))"
    by (simp add: compute_merkle_root_def)
qed

theorem merkle_odd_duplicates_last_witness:
  "odd (length [''a'', ''b'', ''c'', ''d'', ''e'']) \<and> 1 < length [''a'', ''b'', ''c'', ''d'', ''e'']
   \<and> tree (MerkleTree_init sum_digest [''a'', ''b'', ''c'', ''d'', ''e''])
       = [[''a'', ''b'', ''c'', ''d'', ''e'', ''e''], [''3c'', ''7c'', ''ac'', ''ac''],
          [''03'', ''88''], [''3d'']]
   \<and> tree (MerkleTree_init sum_digest [''a'', ''b'', ''c'', ''d'', ''e'', ''e''])
       = [[''a'', ''b'', ''c'', ''d'', ''e'', ''e''], [''3c'', ''7c'', ''ac'', ''ac''],
          [''03'', ''88''], [''3d'']]
   \<and> compute_merkle_root (MerkleTree_init sum_digest [''a'', ''b'', ''c'', ''d'', ''e'']) = Inr ''3d''
   \<and> compute_merkle_root (MerkleTree_init sum_digest [''a'', ''b'', ''c'', ''d'', ''e'', ''e'']) = Inr ''3d''"
proof -
  have six: "tree (MerkleTree_init sum_digest [''a'', ''b'', ''c'', ''d'', ''e'', ''e''])
       = [[''a'', ''b'', ''c'', ''d'', ''e'', ''e''], [''3c'', ''7c'', ''ac'', ''ac''],
          [''03'', ''88''], [''3d'']]"
    by (simp add: eval_merkle sum_digest_def hex_char_def)
  from merkle_odd_duplicates_last [where xs = "[''a'', ''b'', ''c'', ''d'', ''e'']" and H = sum_digest]
  have same: "tree (MerkleTree_init sum_digest [''a'', ''b'', ''c'', ''d'', ''e''])
       = tree (MerkleTree_init sum_digest [''a'', ''b'', ''c'', ''d'', ''e'', ''e''])"
    by simp
  from six same show ?thesis
    by (simp add: compute_merkle_root_def)
qed

text \<open>
  C6, as the code has it. After construction from a non-empty list, \<^verbatim>\<open>leaves\<close> is the
  list that was passed. Level 0 of \<^verbatim>\<open>tree\<close> is that list when its length is 1 or even;
  when its length is odd and greater than 1, level 0 is the list followed by one more copy
  of its last entry, because the padding is appended to the stored level itself.
\<close>

theorem merkle_level_zero:
  assumes "ls \<noteq> []"
  shows "leaves (MerkleTree_init H ls) = ls
         \<and> tree (MerkleTree_init H ls) ! 0
             = (if odd (length ls) \<and> 1 < length ls then ls @ [last ls] else ls)"
proof (cases "1 < length ls")
  case True
  with build_loop_level_padded [of "[ls]" ls H] assms show ?thesis
    by (simp add: MerkleTree_init_def build_tree_def odd_iff_mod_2_eq_one)
next
  case False
  with assms show ?thesis
    by (simp add: MerkleTree_init_def build_tree_def build_loop_stop)
qed

theorem merkle_level_zero_witness:
  "[''a'', ''b'', ''c''] \<noteq> []
   \<and> leaves (MerkleTree_init sum_digest [''a'', ''b'', ''c'']) = [''a'', ''b'', ''c'']
   \<and> tree (MerkleTree_init sum_digest [''a'', ''b'', ''c'']) ! 0 = [''a'', ''b'', ''c'', ''c'']
   \<and> tree (MerkleTree_init sum_digest [''a'', ''b'']) ! 0 = [''a'', ''b'']"
  using merkle_level_zero [of "[''a'', ''b'', ''c'']" sum_digest]
    merkle_level_zero [of "[''a'', ''b'']" sum_digest]
  by simp

text \<open>
  C6 as stated fails for three leaves: the stored level 0 has four entries.
\<close>

theorem merkle_level_zero_counterexample:
  "[''a'', ''b'', ''c''] \<noteq> []
   \<and> tree (MerkleTree_init sum_digest [''a'', ''b'', ''c'']) ! 0 \<noteq> [''a'', ''b'', ''c'']
   \<and> length (tree (MerkleTree_init sum_digest [''a'', ''b'', ''c'']) ! 0) = 4"
  by (simp add: eval_merkle)

section \<open>Claims about chains\<close>

lemma valid_scan_ok: "block_ok H bc i \<Longrightarrow> valid_scan H bc (i # rest) = valid_scan H bc rest"
  unfolding block_ok_def by (elim conjE) (simp add: Let_def)

lemma valid_scan_bad: "\<not> block_ok H bc i \<Longrightarrow> valid_scan H bc (i # rest) = (False, Some i)"
  by (auto simp: block_ok_def Let_def)

lemma valid_scan_True: "valid_scan H bc is = (True, None) \<longleftrightarrow> (\<forall>i \<in> set is. block_ok H bc i)"
proof (induction "is")
  case Nil
  show ?case by simp
next
  case (Cons i rest)
  show ?case
  proof (cases "block_ok H bc i")
    case True
    with Cons show ?thesis by (simp add: valid_scan_ok del: valid_scan.simps)
  next
    case False
    then show ?thesis by (auto simp: valid_scan_bad simp del: valid_scan.simps)
  qed
qed

lemma valid_scan_first_bad:
  "\<forall>i \<in> set pre. block_ok H bc i \<Longrightarrow> \<not> block_ok H bc k \<Longrightarrow>
   valid_scan H bc (pre @ k # rest) = (False, Some k)"
  by (induction pre) (simp_all add: valid_scan_ok valid_scan_bad del: valid_scan.simps)

lemma valid_scan_result:
  "valid_scan H bc is = (True, None) \<or> (\<exists>i \<in> set is. valid_scan H bc is = (False, Some i) \<and> \<not> block_ok H bc i)"
proof (induction "is")
  case Nil
  show ?case by simp
next
  case (Cons i rest)
  show ?case
  proof (cases "block_ok H bc i")
    case True
    with Cons show ?thesis by (auto simp: valid_scan_ok simp del: valid_scan.simps)
  next
    case False
    then show ?thesis by (simp add: valid_scan_bad del: valid_scan.simps)
  qed
qed

lemma Block_init_fields:
  "timestamp (Block_init H d prev ts) = ts" "data (Block_init H d prev ts) = d"
  "previous_hash (Block_init H d prev ts) = prev" "nonce (Block_init H d prev ts) = 0"
  "hash (Block_init H d prev ts) = calculate_hash H (Block_init H d prev ts)"
  by (simp_all add: Block_init_def calculate_hash_def Let_def)

lemma mine_new_block:
  assumes "mine_block H D (Block_init H d prev ts) = Some nb"
  shows "previous_hash nb = prev \<and> data nb = d \<and> timestamp nb = ts
         \<and> hash nb = calculate_hash H nb \<and> startswith (hash nb) (str_mul ''0'' D)"
proof -
  from assms have run: "mine_loop H (str_mul ''0'' D) (Block_init H d prev ts) = Some nb"
    by (simp add: mine_block_def)
  from mine_loop_post [OF run] Block_init_fields(5) [of H d prev ts] show ?thesis
    by (auto simp: Block_init_fields(1-4))
qed

lemma chain_inv_init:
  assumes "Blockchain_init H D gts = Some bc"
  shows "chain_inv H D bc \<and> length (chain bc) = 1"
proof -
  from assms obtain g where g: "mine_block H D (Block_init H ''Genesis Block'' ''0'' gts) = Some g"
    and bc: "bc = \<lparr>difficulty = D, chain = [g]\<rparr>"
    by (auto simp: Blockchain_init_def create_genesis_block_def split: option.splits)
  from mine_new_block [OF g] bc show ?thesis
    by (auto simp: chain_inv_def)
qed

lemma chain_inv_add_block:
  assumes inv: "chain_inv H D bc" and add: "add_block H bc d ts = Some r"
  shows "\<exists>bc'. r = Inr bc' \<and> chain_inv H D bc' \<and> length (chain bc') = Suc (length (chain bc))"
proof -
  from inv have ne: "chain bc \<noteq> []" and dif: "difficulty bc = D"
    by (simp_all add: chain_inv_def)
  from add ne dif obtain nb where
    nb: "mine_block H D (Block_init H d (hash (last (chain bc))) ts) = Some nb"
    and r: "r = Inr (bc\<lparr>chain := chain bc @ [nb]\<rparr>)"
    by (auto simp: add_block_def Let_def split: option.splits)
  note new = mine_new_block [OF nb]
  let ?bc' = "bc\<lparr>chain := chain bc @ [nb]\<rparr>"
  have links: "previous_hash (chain ?bc' ! i) = hash (chain ?bc' ! (i - 1))"
    if "1 \<le> i" and "i < length (chain ?bc')" for i
  proof (cases "i < length (chain bc)")
    case True
    with that have prev: "i - 1 < length (chain bc)"
      by simp
    from inv that(1) True have "previous_hash (chain bc ! i) = hash (chain bc ! (i - 1))"
      unfolding chain_inv_def by blast
    with True prev show ?thesis
      by (simp add: nth_append)
  next
    case False
    with that have "i = length (chain bc)"
      by simp
    with new ne show ?thesis
      by (simp add: nth_append last_conv_nth)
  qed
  have first: "previous_hash (chain ?bc' ! 0) = ''0''"
    using inv ne by (simp add: chain_inv_def nth_append)
  have "chain_inv H D ?bc'"
    unfolding chain_inv_def
  proof (intro conjI allI impI ballI)
    show "difficulty ?bc' = D" using dif by simp
    show "chain ?bc' \<noteq> []" by simp
    show "previous_hash (chain ?bc' ! 0) = ''0''" by (rule first)
    show "previous_hash (chain ?bc' ! i) = hash (chain ?bc' ! (i - 1))"
      if "1 \<le> i \<and> i < length (chain ?bc')" for i
      using that links by blast
    show "hash b = calculate_hash H b" if "b \<in> set (chain ?bc')" for b
      using that inv new by (auto simp: chain_inv_def)
    show "startswith (hash b) (str_mul ''0'' D)" if "b \<in> set (chain ?bc')" for b
      using that inv new by (auto simp: chain_inv_def)
  qed
  with r show ?thesis by simp
qed

lemma chain_inv_add_blocks:
  assumes "chain_inv H D bc" and "add_blocks H bc calls = Some r"
  shows "\<exists>bc'. r = Inr bc' \<and> chain_inv H D bc'
              \<and> length (chain bc') = length (chain bc) + length calls"
  using assms
proof (induction calls arbitrary: bc)
  case Nil
  then show ?case by auto
next
  case (Cons c calls)
  obtain d ts where c: "c = (d, ts)"
    by (cases c)
  from Cons.prems(2) c obtain r1 where r1: "add_block H bc d ts = Some r1"
    by (cases "add_block H bc d ts") simp_all
  from chain_inv_add_block [OF Cons.prems(1) r1] obtain bc1 where
    bc1: "r1 = Inr bc1" "chain_inv H D bc1" "length (chain bc1) = Suc (length (chain bc))"
    by blast
  from Cons.prems(2) c r1 bc1(1) have "add_blocks H bc1 calls = Some r"
    by simp
  from Cons.IH [OF bc1(2) this] bc1(3) show ?case
    by auto
qed

lemma chain_inv_valid:
  assumes "chain_inv H D bc"
  shows "is_chain_valid H bc = (True, None)"
proof -
  have "block_ok H bc i" if "i \<in> set [1..<length (chain bc)]" for i
  proof -
    from that have i: "1 \<le> i" "i < length (chain bc)"
      by simp_all
    then have "chain bc ! i \<in> set (chain bc)"
      by simp
    with assms i show ?thesis
      unfolding chain_inv_def block_ok_def by blast
  qed
  then show ?thesis
    by (simp add: is_chain_valid_def valid_scan_True)
qed

lemmas eval_chain = Blockchain_init_def create_genesis_block_def add_block_def
  mine_block_def mine_loop_done mine_loop_step eval_digest Let_def

lemma build_example_chain:
  "Blockchain_init sum_digest 1 (Int_time 1000) = Some \<lparr>difficulty = 1, chain = [example_mined]\<rparr>"
  "add_blocks sum_digest \<lparr>difficulty = 1, chain = [example_mined]\<rparr>
     [(''Transaction 0'', Int_time 1001), (''Transaction 1'', Int_time 1002)]
   = Some (Inr example_chain)"
  by (simp_all add: example_chain_def example_mined_def eval_chain)

lemma build_example_chain0:
  "Blockchain_init sum_digest 0 (Int_time 1000)
     = Some \<lparr>difficulty = 0, chain = [hd (chain example_chain0)]\<rparr>"
  "add_blocks sum_digest \<lparr>difficulty = 0, chain = [hd (chain example_chain0)]\<rparr>
     [(''Transaction 0'', Int_time 1001)]
   = Some (Inr example_chain0)"
  by (simp_all add: example_chain0_def eval_chain)

lemmas eval_valid = is_chain_valid_def update_data_at_def update_data_def upt_conv_Cons
  eval_digest Let_def

lemma update_data_fresh: "hash (update_data H b p) = calculate_hash H (update_data H b p)"
  by (simp add: update_data_def calculate_hash_def Let_def)

lemma update_data_previous_hash: "previous_hash (update_data H b p) = previous_hash b"
  by (simp add: update_data_def Let_def)

lemma tamper_block_ok:
  assumes valid: "is_chain_valid H bc = (True, None)"
    and k: "1 \<le> k" "k < length (chain bc)"
    and bc': "bc' = bc\<lparr>chain := (chain bc)[k := update_data H (chain bc ! k) p]\<rparr>"
  shows "\<forall>i \<in> set [1..<k]. block_ok H bc' i"
    and "block_ok H bc' k \<longleftrightarrow>
           startswith (hash (update_data H (chain bc ! k) p)) (str_mul ''0'' (difficulty bc))"
proof -
  from valid have ok: "block_ok H bc i" if "1 \<le> i" "i < length (chain bc)" for i
    using that by (simp add: is_chain_valid_def valid_scan_True)
  show "\<forall>i \<in> set [1..<k]. block_ok H bc' i"
  proof
    fix i assume "i \<in> set [1..<k]"
    with k have i: "1 \<le> i" "i < k" "i < length (chain bc)"
      by simp_all
    then have same: "chain bc' ! i = chain bc ! i" "chain bc' ! (i - 1) = chain bc ! (i - 1)"
      by (simp_all add: bc')
    have dif: "difficulty bc' = difficulty bc"
      by (simp add: bc')
    from ok [OF i(1) i(3)] show "block_ok H bc' i"
      unfolding block_ok_def same dif .
  qed
  from k have new: "chain bc' ! k = update_data H (chain bc ! k) p"
    and old: "chain bc' ! (k - 1) = chain bc ! (k - 1)"
    by (simp_all add: bc')
  from ok [OF k] have link: "previous_hash (chain bc ! k) = hash (chain bc ! (k - 1))"
    by (simp add: block_ok_def)
  show "block_ok H bc' k \<longleftrightarrow>
           startswith (hash (update_data H (chain bc ! k) p)) (str_mul ''0'' (difficulty bc))"
  proof -
    have dif: "difficulty bc' = difficulty bc"
      by (simp add: bc')
    from link update_data_fresh [of H "chain bc ! k" p] show ?thesis
      unfolding block_ok_def new old dif update_data_previous_hash by blast
  qed
qed

text \<open>
  Whatever the digest function, at a difficulty of 0 (or below) a change of the last
  block's payload with \<^verbatim>\<open>update_data\<close> leaves the chain valid.
\<close>

lemma tamper_last_block_undetected:
  assumes valid: "is_chain_valid H bc = (True, None)"
    and dif: "difficulty bc \<le> 0"
    and k: "1 \<le> k" "Suc k = length (chain bc)"
  shows "is_chain_valid H (bc\<lparr>chain := (chain bc)[k := update_data H (chain bc ! k) p]\<rparr>)
           = (True, None)"
proof -
  define bc' where "bc' = bc\<lparr>chain := (chain bc)[k := update_data H (chain bc ! k) p]\<rparr>"
  from k have lt: "k < length (chain bc)"
    by simp
  note ok = tamper_block_ok [OF valid k(1) lt bc'_def]
  from dif have "str_mul ''0'' (difficulty bc) = []"
    by (simp add: str_mul_def)
  with ok(2) have "block_ok H bc' k"
    by (simp add: startswith_empty)
  with ok(1) have "\<forall>i \<in> set ([1..<k] @ [k]). block_ok H bc' i"
    by simp
  moreover from k have "[1..<length (chain bc')] = [1..<k] @ [k]"
    by (simp add: bc'_def flip: upt_Suc_append)
  ultimately show ?thesis
    unfolding bc'_def [symmetric] by (simp only: is_chain_valid_def valid_scan_True)
qed

text \<open>
  C2. A chain made by the constructor and any sequence of \<^verbatim>\<open>add_block\<close> calls, all of
  whose mining loops returned: no call raised, every block from index 1 on holds the
  digest of its predecessor as previous hash, every stored digest equals the
  recomputation and starts with \<open>D\<close> characters \<open>0\<close>, and \<^verbatim>\<open>is_chain_valid\<close> returns
  \<^verbatim>\<open>(True, None)\<close>.
\<close>

theorem built_chain_valid:
  assumes "Blockchain_init H D gts = Some bc0"
    and "add_blocks H bc0 calls = Some r"
  shows "\<exists>bc. r = Inr bc
         \<and> (\<forall>i. 1 \<le> i \<and> i < length (chain bc) \<longrightarrow>
                previous_hash (chain bc ! i) = hash (chain bc ! (i - 1)))
         \<and> (\<forall>b \<in> set (chain bc). hash b = calculate_hash H b
               \<and> startswith (hash b) (replicate (nat D) (CHR ''0'')))
         \<and> is_chain_valid H bc = (True, None)
         \<and> difficulty bc = D
         \<and> length (chain bc) = Suc (length calls)
         \<and> previous_hash (chain bc ! 0) = ''0''"
proof -
  from chain_inv_init [OF assms(1)] have inv0: "chain_inv H D bc0" and len0: "length (chain bc0) = 1"
    by simp_all
  from chain_inv_add_blocks [OF inv0 assms(2)] len0
  obtain bc where r: "r = Inr bc" and inv: "chain_inv H D bc"
    and len: "length (chain bc) = Suc (length calls)"
    by auto
  from inv chain_inv_valid [OF inv] len r show ?thesis
    unfolding chain_inv_def str_mul_zero by blast
qed

theorem built_chain_valid_witness:
  "Blockchain_init sum_digest 1 (Int_time 1000) = Some \<lparr>difficulty = 1, chain = [example_mined]\<rparr>
   \<and> add_blocks sum_digest \<lparr>difficulty = 1, chain = [example_mined]\<rparr>
        [(''Transaction 0'', Int_time 1001), (''Transaction 1'', Int_time 1002)]
       = Some (Inr example_chain)
   \<and> length (chain example_chain) = 3
   \<and> previous_hash (chain example_chain ! 1) = hash (chain example_chain ! 0)
   \<and> previous_hash (chain example_chain ! 2) = hash (chain example_chain ! 1)
   \<and> is_chain_valid sum_digest example_chain = (True, None)"
proof -
  from built_chain_valid [OF build_example_chain]
  have valid: "is_chain_valid sum_digest example_chain = (True, None)"
    by simp
  have rest: "length (chain example_chain) = 3"
    "previous_hash (chain example_chain ! 1) = hash (chain example_chain ! 0)"
    "previous_hash (chain example_chain ! 2) = hash (chain example_chain ! 1)"
    by (simp_all add: example_chain_def example_mined_def)
  from build_example_chain valid rest show ?thesis
    by simp
qed

text \<open>
  C1, as the code has it. In a chain that \<^verbatim>\<open>is_chain_valid\<close> accepts, replacing the
  payload of block \<open>k\<close> (\<open>1 \<le> k < length\<close>) with \<^verbatim>\<open>update_data\<close> makes
  \<^verbatim>\<open>is_chain_valid\<close> return \<^verbatim>\<open>(False, k)\<close> exactly when the new digest of block \<open>k\<close>
  (recomputed with nonce 0) does not start with \<open>difficulty\<close> characters \<open>0\<close>. The
  tampered block passes the digest check and the link check, so the difficulty check is
  the only one that can stop the scan at \<open>k\<close>.
\<close>

theorem tamper_detected:
  assumes "is_chain_valid H bc = (True, None)" and "1 \<le> k" and "k < length (chain bc)"
  shows "\<exists>bc'. update_data_at H bc k p = Inr bc'
           \<and> (is_chain_valid H bc' = (False, Some k) \<longleftrightarrow>
                \<not> startswith (hash (update_data H (chain bc ! k) p))
                     (replicate (nat (difficulty bc)) (CHR ''0'')))"
proof -
  define bc' where "bc' = bc\<lparr>chain := (chain bc)[k := update_data H (chain bc ! k) p]\<rparr>"
  from assms(3) have upd: "update_data_at H bc k p = Inr bc'"
    by (simp add: update_data_at_def bc'_def)
  note ok = tamper_block_ok [OF assms bc'_def]
  have len: "length (chain bc') = length (chain bc)"
    by (simp add: bc'_def)
  have split: "[1..<length (chain bc')] = [1..<k] @ k # [Suc k..<length (chain bc)]"
  proof -
    from assms(2,3) have "[1..<length (chain bc)] = [1..<k] @ [k..<k + (length (chain bc) - k)]"
      by (subst upt_add_eq_append [symmetric]) simp_all
    also from assms(3) have "[k..<k + (length (chain bc) - k)] = k # [Suc k..<length (chain bc)]"
      by (simp add: upt_conv_Cons)
    finally show ?thesis
      by (simp add: len)
  qed
  have "is_chain_valid H bc' = (False, Some k) \<longleftrightarrow> \<not> block_ok H bc' k"
  proof
    assume res: "is_chain_valid H bc' = (False, Some k)"
    from valid_scan_result [of H bc' "[1..<length (chain bc')]"] res
    show "\<not> block_ok H bc' k"
      by (auto simp: is_chain_valid_def)
  next
    assume "\<not> block_ok H bc' k"
    with ok(1) show "is_chain_valid H bc' = (False, Some k)"
      unfolding is_chain_valid_def split by (rule valid_scan_first_bad)
  qed
  with ok(2) upd show ?thesis
    by (simp add: str_mul_zero)
qed

theorem tamper_detected_witness:
  "is_chain_valid sum_digest example_chain = (True, None)
   \<and> (1 :: nat) \<le> 1 \<and> 1 < length (chain example_chain)
   \<and> \<not> startswith (hash (update_data sum_digest (chain example_chain ! 1) ''x''))
          (replicate (nat (difficulty example_chain)) (CHR ''0''))
   \<and> (case update_data_at sum_digest example_chain 1 ''x'' of
         Inl e \<Rightarrow> None | Inr bc' \<Rightarrow> Some (is_chain_valid sum_digest bc'))
       = Some (False, Some 1)"
proof -
  have valid: "is_chain_valid sum_digest example_chain = (True, None)"
    by (simp add: example_chain_def example_mined_def eval_valid)
  have len: "1 < length (chain example_chain)"
    by (simp add: example_chain_def)
  have miss: "\<not> startswith (hash (update_data sum_digest (chain example_chain ! 1) ''x''))
          (replicate (nat (difficulty example_chain)) (CHR ''0''))"
    by (simp add: example_chain_def example_mined_def eval_valid)
  from tamper_detected [OF valid _ len, of "''x''"] miss
  have "(case update_data_at sum_digest example_chain 1 ''x'' of
         Inl e \<Rightarrow> None | Inr bc' \<Rightarrow> Some (is_chain_valid sum_digest bc'))
       = Some (False, Some 1)"
    by auto
  with valid len miss show ?thesis
    by simp
qed

text \<open>
  C1 as stated fails at difficulty 0, where every digest meets the target: the chain of
  the constructor and one \<^verbatim>\<open>add_block\<close> is valid, and after \<^verbatim>\<open>update_data\<close> on its
  block 1 (the last index) \<^verbatim>\<open>is_chain_valid\<close> still returns \<^verbatim>\<open>(True, None)\<close>.
\<close>

theorem tamper_undetected_counterexample:
  "add_blocks sum_digest \<lparr>difficulty = 0, chain = [hd (chain example_chain0)]\<rparr>
       [(''Transaction 0'', Int_time 1001)] = Some (Inr example_chain0)
   \<and> is_chain_valid sum_digest example_chain0 = (True, None)
   \<and> (1 :: nat) \<le> 1 \<and> 1 \<le> length (chain example_chain0) - 1
   \<and> (case update_data_at sum_digest example_chain0 1 ''x'' of
         Inl e \<Rightarrow> None | Inr bc' \<Rightarrow> Some (is_chain_valid sum_digest bc'))
       = Some (True, None)"
  by (simp add: example_chain0_def eval_chain eval_valid)

section \<open>Claims about the majority root\<close>

lemma max_from_first_max:
  "\<exists>pre post. best # xs = pre @ max_from key best xs # post
      \<and> (\<forall>y \<in> set pre. key y < key (max_from key best xs))
      \<and> (\<forall>y \<in> set (best # xs). key y \<le> key (max_from key best xs))"
proof (induction xs arbitrary: best)
  case Nil
  show ?case by (intro exI [of _ "[]"]) simp
next
  case (Cons x xs)
  show ?case
  proof (cases "key x > key best")
    case True
    let ?m = "max_from key x xs"
    from True have m: "max_from key best (x # xs) = ?m"
      by simp
    from Cons [of x] obtain pre post where dec: "x # xs = pre @ ?m # post"
      and before: "\<forall>y \<in> set pre. key y < key ?m"
      and all: "\<forall>y \<in> set (x # xs). key y \<le> key ?m"
      by blast
    from dec have "best # x # xs = (best # pre) @ ?m # post"
      by simp
    moreover from True all have less: "key best < key ?m"
      by (simp add: less_le_trans)
    moreover from all less have "\<forall>y \<in> set (best # x # xs). key y \<le> key ?m"
      by auto
    moreover from before less have "\<forall>y \<in> set (best # pre). key y < key ?m"
      by simp
    ultimately show ?thesis
      unfolding m by blast
  next
    case False
    let ?m = "max_from key best xs"
    from False have m: "max_from key best (x # xs) = ?m"
      by simp
    from Cons [of best] obtain pre post where dec: "best # xs = pre @ ?m # post"
      and before: "\<forall>y \<in> set pre. key y < key ?m"
      and all: "\<forall>y \<in> set (best # xs). key y \<le> key ?m"
      by blast
    from all False have all': "\<forall>y \<in> set (best # x # xs). key y \<le> key ?m"
      by auto
    show ?thesis
    proof (cases pre)
      case Nil
      from dec have "best # xs = ?m # post"
        unfolding Nil append_Nil .
      then have "best = ?m"
        by (rule list.inject [THEN iffD1, THEN conjunct1])
      then have "best # x # xs = [] @ ?m # (x # xs)"
        by simp
      with all' show ?thesis
        unfolding m by (intro exI [of _ "[]"] exI [of _ "x # xs"]) simp
    next
      case (Cons p pre')
      from dec have "best # xs = p # (pre' @ ?m # post)"
        unfolding Cons append_Cons .
      then have p: "p = best" and xs: "xs = pre' @ ?m # post"
        by auto
      from before Cons p have less: "key best < key ?m"
        by simp
      with False have "key x < key ?m"
        by simp
      with before Cons p less have "\<forall>y \<in> set (best # x # pre'). key y < key ?m"
        by simp
      moreover from xs have "best # x # xs = (best # x # pre') @ ?m # post"
        by simp
      ultimately show ?thesis
        unfolding m using all' by blast
    qed
  qed
qed

lemma py_max_first_max:
  assumes "xs \<noteq> []"
  shows "\<exists>m pre post. py_max key xs = Inr m \<and> xs = pre @ m # post
      \<and> (\<forall>y \<in> set pre. key y < key m) \<and> (\<forall>y \<in> set xs. key y \<le> key m)"
proof -
  from assms obtain b rest where xs: "xs = b # rest"
    by (cases xs) simp_all
  from max_from_first_max [of b rest key] show ?thesis
    unfolding xs by auto
qed

lemma first_max_filter:
  assumes "xs = pre @ m # post" and "\<forall>y \<in> set pre. \<not> P y" and "P m"
  shows "filter P xs = m # filter P post"
  using assms by simp

text \<open>
  C3, as the code has it. \<^verbatim>\<open>max(set(roots), key=roots.count)\<close> returns the first root,
  in the iteration order of \<^verbatim>\<open>set(roots)\<close>, whose occurrence count in \<^verbatim>\<open>roots\<close> is
  maximal. So on a non-empty list it returns a root with the highest count, and when
  only one root has that count it is the root the specification names; among several
  roots with the highest count the iteration order of the set decides, not the order of
  the replica list. On the empty list \<^verbatim>\<open>max\<close> raises \<^verbatim>\<open>ValueError\<close>.
\<close>

theorem majority_root_first_in_iteration:
  assumes "set_iteration order roots"
  shows "majority_root order roots
           = (case filter (is_max_count roots) order of [] \<Rightarrow> Inl ValueError | r # _ \<Rightarrow> Inr r)
         \<and> (roots = [] \<longrightarrow> majority_root order roots = Inl ValueError)
         \<and> (roots \<noteq> [] \<longrightarrow>
              (\<exists>r. majority_root order roots = Inr r \<and> r \<in> set roots
                 \<and> (\<forall>r' \<in> set roots. count_list roots r' \<le> count_list roots r)
                 \<and> ((\<forall>r' \<in> set roots. is_max_count roots r' \<longrightarrow> r' = r)
                      \<longrightarrow> majority_root_spec roots = Inr r)))"
proof -
  from assms have same: "set order = set roots"
    by (simp add: set_iteration_def)
  have maxdef: "is_max_count roots r \<longleftrightarrow> (\<forall>r' \<in> set roots. count_list roots r' \<le> count_list roots r)"
    for r
    by (simp add: is_max_count_def list_all_iff)
  show ?thesis
  proof (cases "roots = []")
    case True
    with same show ?thesis
      by (simp add: majority_root_def)
  next
    case False
    with same have "order \<noteq> []"
      by auto
    from py_max_first_max [OF this, of "count_list roots"] obtain m pre post where
      res: "majority_root order roots = Inr m" and dec: "order = pre @ m # post"
      and before: "\<forall>y \<in> set pre. count_list roots y < count_list roots m"
      and all: "\<forall>y \<in> set order. count_list roots y \<le> count_list roots m"
      unfolding majority_root_def by blast
    from dec same have mem: "m \<in> set roots"
      by auto
    from all same have ismax: "is_max_count roots m"
      by (simp add: maxdef)
    have notmax: "\<forall>y \<in> set pre. \<not> is_max_count roots y"
    proof
      fix y assume "y \<in> set pre"
      with before have less: "count_list roots y < count_list roots m"
        by simp
      show "\<not> is_max_count roots y"
      proof
        assume "is_max_count roots y"
        then have "\<forall>r' \<in> set roots. count_list roots r' \<le> count_list roots y"
          by (simp only: maxdef)
        from this mem have "count_list roots m \<le> count_list roots y"
          by (rule bspec)
        with less show False
          by simp
      qed
    qed
    have first: "filter (is_max_count roots) order = m # filter (is_max_count roots) post"
      using dec notmax ismax by (rule first_max_filter)
    have spec: "majority_root_spec roots = Inr m"
      if uniq: "\<forall>r' \<in> set roots. is_max_count roots r' \<longrightarrow> r' = m"
    proof -
      from mem ismax have "filter (is_max_count roots) roots \<noteq> []"
        by (auto simp: filter_empty_conv)
      then obtain r rest where f: "filter (is_max_count roots) roots = r # rest"
        by (cases "filter (is_max_count roots) roots") simp_all
      then have "r \<in> set (filter (is_max_count roots) roots)"
        by simp
      with uniq have "r = m"
        by simp
      with f show ?thesis
        by (simp add: majority_root_spec_def)
    qed
    have c1: "majority_root order roots
           = (case filter (is_max_count roots) order of [] \<Rightarrow> Inl ValueError | r # _ \<Rightarrow> Inr r)"
      by (simp only: res first list.case)
    from ismax have bound: "\<forall>r' \<in> set roots. count_list roots r' \<le> count_list roots m"
      by (simp only: maxdef)
    have c3: "\<exists>r. majority_root order roots = Inr r \<and> r \<in> set roots
                 \<and> (\<forall>r' \<in> set roots. count_list roots r' \<le> count_list roots r)
                 \<and> ((\<forall>r' \<in> set roots. is_max_count roots r' \<longrightarrow> r' = r)
                      \<longrightarrow> majority_root_spec roots = Inr r)"
    proof (intro exI [of _ m] conjI impI)
      show "majority_root order roots = Inr m" by (rule res)
      show "m \<in> set roots" by (rule mem)
      show "\<forall>r' \<in> set roots. count_list roots r' \<le> count_list roots m" by (rule bound)
      show "majority_root_spec roots = Inr m"
        if "\<forall>r' \<in> set roots. is_max_count roots r' \<longrightarrow> r' = m"
        using that by (rule spec)
    qed
    show ?thesis
    proof (intro conjI impI)
      show "majority_root order roots
           = (case filter (is_max_count roots) order of [] \<Rightarrow> Inl ValueError | r # _ \<Rightarrow> Inr r)"
        by (rule c1)
      show "majority_root order roots = Inl ValueError" if "roots = []"
        using that False by simp
      show "\<exists>r. majority_root order roots = Inr r \<and> r \<in> set roots
                 \<and> (\<forall>r' \<in> set roots. count_list roots r' \<le> count_list roots r)
                 \<and> ((\<forall>r' \<in> set roots. is_max_count roots r' \<longrightarrow> r' = r)
                      \<longrightarrow> majority_root_spec roots = Inr r)"
        by (rule c3)
    qed
  qed
qed

theorem majority_root_first_in_iteration_witness:
  "set_iteration [''b'', ''c'', ''a''] [''a'', ''b'', ''b'', ''c'', ''c'', ''a'', ''c'']
   \<and> [''a'', ''b'', ''b'', ''c'', ''c'', ''a'', ''c''] \<noteq> []
   \<and> filter (is_max_count [''a'', ''b'', ''b'', ''c'', ''c'', ''a'', ''c'']) [''b'', ''c'', ''a''] = [''c'']
   \<and> majority_root [''b'', ''c'', ''a''] [''a'', ''b'', ''b'', ''c'', ''c'', ''a'', ''c''] = Inr ''c''
   \<and> majority_root_spec [''a'', ''b'', ''b'', ''c'', ''c'', ''a'', ''c''] = Inr ''c''
   \<and> set_iteration ([] :: string list) []
   \<and> majority_root [] [] = Inl ValueError"
proof -
  let ?roots = "[''a'', ''b'', ''b'', ''c'', ''c'', ''a'', ''c'']"
  have none: "set_iteration ([] :: string list) []"
    by (simp add: set_iteration_def)
  from majority_root_first_in_iteration [OF none]
  have empty: "majority_root [] [] = Inl ValueError"
    by simp
  have it: "set_iteration [''b'', ''c'', ''a''] ?roots"
    by (auto simp: set_iteration_def)
  have flt: "filter (is_max_count ?roots) [''b'', ''c'', ''a''] = [''c'']"
    by (simp add: is_max_count_def)
  from majority_root_first_in_iteration [OF it, THEN conjunct1]
  have code: "majority_root [''b'', ''c'', ''a''] ?roots = Inr ''c''"
    by (simp only: flt list.case)
  have spec: "majority_root_spec ?roots = Inr ''c''"
    by (simp add: majority_root_spec_def is_max_count_def)
  from it flt code spec none empty show ?thesis
    by simp
qed

text \<open>
  C3 as stated fails on a tie: for the roots \<open>a, b\<close>, each occurring once, a set
  iteration that yields \<open>b\<close> first makes the selection return \<open>b\<close>, while the
  earliest root of the list with the highest count is \<open>a\<close>.
\<close>

theorem majority_root_tie_counterexample:
  "set_iteration [''b'', ''a''] [''a'', ''b'']
   \<and> majority_root [''b'', ''a''] [''a'', ''b''] = Inr ''b''
   \<and> majority_root_spec [''a'', ''b''] = Inr ''a''"
  by (auto simp: set_iteration_def majority_root_def majority_root_spec_def is_max_count_def)

end
